theory Spec2Isabelle
  imports Main "HOL-Library.Monad_Syntax"
begin

section \<open>The regular-expression engine of \<^verbatim>\<open>regex.py\<close>\<close>

text \<open>
  The engine works on Python strings.  A string is modelled as a \<^typ>\<open>string\<close>, a
  result as a \<^typ>\<open>bool option\<close>: \<open>Some b\<close> is the boolean the call returns and
  \<open>None\<close> stands for an \<^verbatim>\<open>IndexError\<close> raised by an index expression
  \<^verbatim>\<open>s[i]\<close> out of range.  Slices never raise.  The engine only compares
  characters for equality, with each other and with the seven characters it gives a
  meaning to, all of them ASCII.

  The functions \<open>regex_match_full\<close>, \<open>regex_match_prefix\<close> and \<open>regex_search\<close>
  are the source on a call stack without a bound: they say what a call returns when it
  returns.  The interpreter's bound on the depth of the calls, past which it raises
  \<^verbatim>\<open>RecursionError\<close>, is added by the functions \<open>regex_match_full_within\<close>,
  \<open>regex_match_prefix_within\<close> and \<open>regex_search_within\<close>, which take the number
  of frames left.
\<close>

subsection \<open>Python string primitives\<close>

abbreviation backslash :: char where
  "backslash \<equiv> CHR 0x5C"

text \<open>\<^verbatim>\<open>s[i]\<close> for a non-negative constant \<open>i\<close>: raises out of range.\<close>

definition getitem :: "string \<Rightarrow> nat \<Rightarrow> char option" where
  "getitem s i = (if i < length s then Some (s ! i) else None)"

text \<open>Slice bounds are clamped to the string, negative ones counted from its end.\<close>

definition clamp_index :: "nat \<Rightarrow> int \<Rightarrow> nat" where
  "clamp_index n i = (if i < 0 then nat (max 0 (int n + i)) else min n (nat i))"

text \<open>\<^verbatim>\<open>s[i:j]\<close>; \<^verbatim>\<open>s[i:]\<close> for \<open>i \<ge> 0\<close> is \<^term>\<open>drop i s\<close>.\<close>

definition slice :: "string \<Rightarrow> int \<Rightarrow> int \<Rightarrow> string" where
  "slice s i j =
     (let a = clamp_index (length s) i; b = clamp_index (length s) j
      in take (b - a) (drop a s))"

text \<open>\<^verbatim>\<open>s.startswith(c)\<close> and \<^verbatim>\<open>s.endswith(c)\<close> for a one-character \<open>c\<close>.\<close>

definition startswith :: "string \<Rightarrow> char \<Rightarrow> bool" where
  "startswith s c = (case s of [] \<Rightarrow> False | x # _ \<Rightarrow> x = c)"

definition endswith :: "string \<Rightarrow> char \<Rightarrow> bool" where
  "endswith s c = (case rev s of [] \<Rightarrow> False | x # _ \<Rightarrow> x = c)"

subsection \<open>The atom matcher\<close>

definition regex_match :: "char \<Rightarrow> char \<Rightarrow> bool" where
  "regex_match r s = (if r = CHR ''.'' then True else r = s)"

subsection \<open>The core matchers\<close>

text \<open>
  Both matchers are transcribed statement by statement.  Python's \<^verbatim>\<open>A and B\<close>
  evaluates \<open>B\<close> only when \<open>A\<close> holds, which is an \<open>if\<close> here; \<^verbatim>\<open>c in '?*+'\<close>
  for a one-character \<open>c\<close> is membership in the set of the three characters.
\<close>

function regex_match_full :: "string \<Rightarrow> string \<Rightarrow> bool option" where
  "regex_match_full regex string =
    (if regex = [] then Some (string = [])
     else do {
       r0 \<leftarrow> getitem regex 0;
       if r0 = backslash \<and> length regex \<ge> 2 then do {
         hit \<leftarrow> (if string \<noteq> [] then do {
                   r1 \<leftarrow> getitem regex 1;
                   s0 \<leftarrow> getitem string 0;
                   Some (r1 = s0) }
                 else Some False);
         if hit then regex_match_full (drop 2 regex) (drop 1 string)
         else Some False }
       else do {
         quantified \<leftarrow> (if length regex > 1 then do {
                          r1 \<leftarrow> getitem regex 1;
                          Some (r1 \<in> set ''?*+'') }
                        else Some False);
         if quantified then do {
           char \<leftarrow> getitem regex 0;
           meta \<leftarrow> getitem regex 1;
           skip \<leftarrow> (if meta \<in> set ''?*'' then regex_match_full (drop 2 regex) string
                    else Some False);
           if skip then Some True
           else do {
             first \<leftarrow> (if string \<noteq> [] then do {
                         s0 \<leftarrow> getitem string 0;
                         Some (regex_match char s0) }
                       else Some False);
             if first then do {
               once \<leftarrow> regex_match_full (drop 2 regex) (drop 1 string);
               if once then Some True
               else do {
                 more \<leftarrow> (if meta \<in> set ''*+''
                          then regex_match_full regex (drop 1 string)
                          else Some False);
                 if more then Some True else Some False } }
             else Some False } }
         else do {
           first \<leftarrow> (if string \<noteq> [] then do {
                       c0 \<leftarrow> getitem regex 0;
                       s0 \<leftarrow> getitem string 0;
                       Some (regex_match c0 s0) }
                     else Some False);
           if first then regex_match_full (drop 1 regex) (drop 1 string)
           else Some False } } })"
  by pat_completeness auto

termination
  by (relation "measures [\<lambda>(regex, string). length string, \<lambda>(regex, string). length regex]")
     (auto split: if_splits)

function regex_match_prefix :: "string \<Rightarrow> string \<Rightarrow> bool option" where
  "regex_match_prefix regex string =
    (if regex = [] then Some True
     else do {
       r0 \<leftarrow> getitem regex 0;
       if r0 = backslash \<and> length regex \<ge> 2 then do {
         hit \<leftarrow> (if string \<noteq> [] then do {
                   r1 \<leftarrow> getitem regex 1;
                   s0 \<leftarrow> getitem string 0;
                   Some (r1 = s0) }
                 else Some False);
         if hit then regex_match_prefix (drop 2 regex) (drop 1 string)
         else Some False }
       else do {
         quantified \<leftarrow> (if length regex > 1 then do {
                          r1 \<leftarrow> getitem regex 1;
                          Some (r1 \<in> set ''?*+'') }
                        else Some False);
         if quantified then do {
           char \<leftarrow> getitem regex 0;
           meta \<leftarrow> getitem regex 1;
           skip \<leftarrow> (if meta \<in> set ''?*'' then regex_match_prefix (drop 2 regex) string
                    else Some False);
           if skip then Some True
           else do {
             first \<leftarrow> (if string \<noteq> [] then do {
                         s0 \<leftarrow> getitem string 0;
                         Some (regex_match char s0) }
                       else Some False);
             if first then do {
               once \<leftarrow> regex_match_prefix (drop 2 regex) (drop 1 string);
               if once then Some True
               else do {
                 more \<leftarrow> (if meta \<in> set ''*+''
                          then regex_match_prefix regex (drop 1 string)
                          else Some False);
                 if more then Some True else Some False } }
             else Some False } }
         else do {
           first \<leftarrow> (if string \<noteq> [] then do {
                       c0 \<leftarrow> getitem regex 0;
                       s0 \<leftarrow> getitem string 0;
                       Some (regex_match c0 s0) }
                     else Some False);
           if first then regex_match_prefix (drop 1 regex) (drop 1 string)
           else Some False } } })"
  by pat_completeness auto
termination
  by (relation "measures [\<lambda>(regex, string). length string, \<lambda>(regex, string). length regex]")
     (auto split: if_splits)

declare regex_match_full.simps [simp del]
declare regex_match_prefix.simps [simp del]

subsection \<open>The search driver\<close>

text \<open>
  \<^verbatim>\<open>for i in offsets: if attempt(i): return True\<close> followed by
  \<^verbatim>\<open>return False\<close>: the offsets are tried in order, the loop stops at the first
  success, and an exception in an attempt leaves the loop.
\<close>

fun first_match :: "(nat \<Rightarrow> bool option) \<Rightarrow> nat list \<Rightarrow> bool option" where
  "first_match attempt [] = Some False"
| "first_match attempt (i # offsets) = do {
     found \<leftarrow> attempt i;
     if found then Some True else first_match attempt offsets }"

definition regex_search :: "string \<Rightarrow> string \<Rightarrow> bool option" where
  "regex_search regex string =
    (if regex = [] then Some True
     else if startswith regex (CHR ''^'') \<and> endswith regex (CHR ''$'')
       then regex_match_full (slice regex 1 (- 1)) string
     else if startswith regex (CHR ''^'')
       then regex_match_prefix (drop 1 regex) string
     else if endswith regex (CHR ''$'')
       then (let core_regex = slice regex 0 (- 1)
             in first_match (\<lambda>i. regex_match_full core_regex (drop i string))
                  [0 ..< length string + 1])
     else first_match (\<lambda>i. regex_match_prefix regex (drop i string))
            [0 ..< length string + 1])"

subsection \<open>Calls and the call stack\<close>

text \<open>
  The interpreter gives every call of a function of \<^verbatim>\<open>regex.py\<close> a frame and
  raises \<^verbatim>\<open>RecursionError\<close> when none is left.  To follow the calls, the body of
  each matcher is written once more with its calls as parameters: \<open>atom_call\<close> for
  the calls of \<open>regex_match\<close> and \<open>self\<close> for the recursive calls.  Nothing else is
  changed, and a call that raises is \<open>None\<close>.
\<close>

definition regex_match_full_step ::
  "(char \<Rightarrow> char \<Rightarrow> bool option) \<Rightarrow> (string \<Rightarrow> string \<Rightarrow> bool option)
    \<Rightarrow> string \<Rightarrow> string \<Rightarrow> bool option"
where
  "regex_match_full_step atom_call self regex string =
    (if regex = [] then Some (string = [])
     else do {
       r0 \<leftarrow> getitem regex 0;
       if r0 = backslash \<and> length regex \<ge> 2 then do {
         hit \<leftarrow> (if string \<noteq> [] then do {
                   r1 \<leftarrow> getitem regex 1;
                   s0 \<leftarrow> getitem string 0;
                   Some (r1 = s0) }
                 else Some False);
         if hit then self (drop 2 regex) (drop 1 string)
         else Some False }
       else do {
         quantified \<leftarrow> (if length regex > 1 then do {
                          r1 \<leftarrow> getitem regex 1;
                          Some (r1 \<in> set ''?*+'') }
                        else Some False);
         if quantified then do {
           char \<leftarrow> getitem regex 0;
           meta \<leftarrow> getitem regex 1;
           skip \<leftarrow> (if meta \<in> set ''?*'' then self (drop 2 regex) string
                    else Some False);
           if skip then Some True
           else do {
             first \<leftarrow> (if string \<noteq> [] then do {
                         s0 \<leftarrow> getitem string 0;
                         atom_call char s0 }
                       else Some False);
             if first then do {
               once \<leftarrow> self (drop 2 regex) (drop 1 string);
               if once then Some True
               else do {
                 more \<leftarrow> (if meta \<in> set ''*+''
                          then self regex (drop 1 string)
                          else Some False);
                 if more then Some True else Some False } }
             else Some False } }
         else do {
           first \<leftarrow> (if string \<noteq> [] then do {
                       c0 \<leftarrow> getitem regex 0;
                       s0 \<leftarrow> getitem string 0;
                       atom_call c0 s0 }
                     else Some False);
           if first then self (drop 1 regex) (drop 1 string)
           else Some False } } })"

definition regex_match_prefix_step ::
  "(char \<Rightarrow> char \<Rightarrow> bool option) \<Rightarrow> (string \<Rightarrow> string \<Rightarrow> bool option)
    \<Rightarrow> string \<Rightarrow> string \<Rightarrow> bool option"
where
  "regex_match_prefix_step atom_call self regex string =
    (if regex = [] then Some True
     else do {
       r0 \<leftarrow> getitem regex 0;
       if r0 = backslash \<and> length regex \<ge> 2 then do {
         hit \<leftarrow> (if string \<noteq> [] then do {
                   r1 \<leftarrow> getitem regex 1;
                   s0 \<leftarrow> getitem string 0;
                   Some (r1 = s0) }
                 else Some False);
         if hit then self (drop 2 regex) (drop 1 string)
         else Some False }
       else do {
         quantified \<leftarrow> (if length regex > 1 then do {
                          r1 \<leftarrow> getitem regex 1;
                          Some (r1 \<in> set ''?*+'') }
                        else Some False);
         if quantified then do {
           char \<leftarrow> getitem regex 0;
           meta \<leftarrow> getitem regex 1;
           skip \<leftarrow> (if meta \<in> set ''?*'' then self (drop 2 regex) string
                    else Some False);
           if skip then Some True
           else do {
             first \<leftarrow> (if string \<noteq> [] then do {
                         s0 \<leftarrow> getitem string 0;
                         atom_call char s0 }
                       else Some False);
             if first then do {
               once \<leftarrow> self (drop 2 regex) (drop 1 string);
               if once then Some True
               else do {
                 more \<leftarrow> (if meta \<in> set ''*+''
                          then self regex (drop 1 string)
                          else Some False);
                 if more then Some True else Some False } }
             else Some False } }
         else do {
           first \<leftarrow> (if string \<noteq> [] then do {
                       c0 \<leftarrow> getitem regex 0;
                       s0 \<leftarrow> getitem string 0;
                       atom_call c0 s0 }
                     else Some False);
           if first then self (drop 1 regex) (drop 1 string)
           else Some False } } })"

definition regex_search_step ::
  "(string \<Rightarrow> string \<Rightarrow> bool option) \<Rightarrow> (string \<Rightarrow> string \<Rightarrow> bool option)
    \<Rightarrow> string \<Rightarrow> string \<Rightarrow> bool option"
where
  "regex_search_step full_call prefix_call regex string =
    (if regex = [] then Some True
     else if startswith regex (CHR ''^'') \<and> endswith regex (CHR ''$'')
       then full_call (slice regex 1 (- 1)) string
     else if startswith regex (CHR ''^'')
       then prefix_call (drop 1 regex) string
     else if endswith regex (CHR ''$'')
       then (let core_regex = slice regex 0 (- 1)
             in first_match (\<lambda>i. full_call core_regex (drop i string))
                  [0 ..< length string + 1])
     else first_match (\<lambda>i. prefix_call regex (drop i string))
            [0 ..< length string + 1])"

text \<open>A call of \<open>regex_match\<close> that has its frame.\<close>

definition regex_match_call :: "char \<Rightarrow> char \<Rightarrow> bool option" where
  "regex_match_call r s = Some (regex_match r s)"

text \<open>
  The functions with \<open>frames\<close> frames left on the call stack when they are called:
  a call takes one frame, without one it raises \<^verbatim>\<open>RecursionError\<close>, and the calls
  it makes find one frame less.
\<close>

fun regex_match_within :: "nat \<Rightarrow> char \<Rightarrow> char \<Rightarrow> bool option" where
  "regex_match_within 0 r s = None"
| "regex_match_within (Suc frames) r s = regex_match_call r s"

fun regex_match_full_within :: "nat \<Rightarrow> string \<Rightarrow> string \<Rightarrow> bool option" where
  "regex_match_full_within 0 regex string = None"
| "regex_match_full_within (Suc frames) regex string =
     regex_match_full_step (regex_match_within frames) (regex_match_full_within frames)
       regex string"

fun regex_match_prefix_within :: "nat \<Rightarrow> string \<Rightarrow> string \<Rightarrow> bool option" where
  "regex_match_prefix_within 0 regex string = None"
| "regex_match_prefix_within (Suc frames) regex string =
     regex_match_prefix_step (regex_match_within frames) (regex_match_prefix_within frames)
       regex string"

fun regex_search_within :: "nat \<Rightarrow> string \<Rightarrow> string \<Rightarrow> bool option" where
  "regex_search_within 0 regex string = None"
| "regex_search_within (Suc frames) regex string =
     regex_search_step (regex_match_full_within frames) (regex_match_prefix_within frames)
       regex string"

subsection \<open>The quantified-atom step as the specification words it\<close>

text \<open>
  ``Try \<open>first\<close>; if it fails, try \<open>second\<close>'': the second attempt is made only
  when the first one returned false.
\<close>

definition or_else :: "bool option \<Rightarrow> bool option \<Rightarrow> bool option" where
  "or_else first second = do { ok \<leftarrow> first; if ok then Some True else second }"

text \<open>
  Consume: the subject is non-empty and its first character matches the atom; then the
  rest of the pattern is tried against the remaining subject and, where the quantifier
  allows a repetition and that failed, the same quantified pattern once more.
\<close>

definition consume ::
  "(string \<Rightarrow> string \<Rightarrow> bool option) \<Rightarrow> bool \<Rightarrow> char \<Rightarrow> char \<Rightarrow> string \<Rightarrow> string \<Rightarrow> bool option"
where
  "consume matcher repeat atom quantifier rest subject =
     (case subject of
        [] \<Rightarrow> Some False
      | x # xs \<Rightarrow>
          if regex_match atom x
          then or_else (matcher rest xs)
                 (if repeat then matcher (atom # quantifier # rest) xs else Some False)
          else Some False)"

text \<open>
  The policy by quantifier: \<open>?\<close> is skip, then consume once; \<open>*\<close> is skip, then
  consume with repetition; \<open>+\<close> is consume with repetition and never skip.  Skip is
  the rest of the pattern against the unchanged subject.
\<close>

definition quantified_step ::
  "(string \<Rightarrow> string \<Rightarrow> bool option) \<Rightarrow> char \<Rightarrow> char \<Rightarrow> string \<Rightarrow> string \<Rightarrow> bool option"
where
  "quantified_step matcher atom quantifier rest subject =
     (if quantifier = CHR ''?''
        then or_else (matcher rest subject)
               (consume matcher False atom quantifier rest subject)
      else if quantifier = CHR ''*''
        then or_else (matcher rest subject)
               (consume matcher True atom quantifier rest subject)
      else consume matcher True atom quantifier rest subject)"


section \<open>One step of each matcher\<close>

text \<open>
  The defining equations, read off for each shape of the pattern.  They are kept out of
  the simplifier, which would unfold them forever.
\<close>

lemma bind_bool_id:
  "(m :: bool option) \<bind> (\<lambda>b. if b then Some True else Some False) = m"
  by (cases m) auto

lemma full_Nil: "regex_match_full [] s = Some (s = [])"
  by (simp add: regex_match_full.simps)

lemma full_escape:
  "regex_match_full (backslash # c # r) s =
     (case s of [] \<Rightarrow> Some False
      | x # xs \<Rightarrow> if c = x then regex_match_full r xs else Some False)"
  by (subst regex_match_full.simps) (simp add: getitem_def split: list.splits)

lemma full_quant:
  assumes "a \<noteq> backslash" and "q \<in> set ''?*+''"
  shows "regex_match_full (a # q # r) s = do {
     skip \<leftarrow> (if q \<in> set ''?*'' then regex_match_full r s else Some False);
     if skip then Some True
     else (case s of [] \<Rightarrow> Some False
           | x # xs \<Rightarrow>
               if regex_match a x then do {
                 once \<leftarrow> regex_match_full r xs;
                 if once then Some True
                 else if q \<in> set ''*+'' then regex_match_full (a # q # r) xs
                 else Some False }
               else Some False) }"
  using assms
  by (subst regex_match_full.simps [of "a # q # r" s],
      cases s; cases "regex_match_full r s"; cases "regex_match_full r (tl s)")
     (auto simp: getitem_def bind_bool_id)

lemma full_single:
  "regex_match_full [a] s =
     (case s of [] \<Rightarrow> Some False
      | x # xs \<Rightarrow> if regex_match a x then regex_match_full [] xs else Some False)"
  by (subst regex_match_full.simps) (simp add: getitem_def split: list.splits)

lemma full_plain:
  "a \<noteq> backslash \<Longrightarrow> q \<notin> set ''?*+'' \<Longrightarrow>
   regex_match_full (a # q # r) s =
     (case s of [] \<Rightarrow> Some False
      | x # xs \<Rightarrow> if regex_match a x then regex_match_full (q # r) xs else Some False)"
  by (subst regex_match_full.simps) (simp add: getitem_def split: list.splits)

lemma prefix_Nil: "regex_match_prefix [] s = Some True"
  by (simp add: regex_match_prefix.simps)

lemma prefix_escape:
  "regex_match_prefix (backslash # c # r) s =
     (case s of [] \<Rightarrow> Some False
      | x # xs \<Rightarrow> if c = x then regex_match_prefix r xs else Some False)"
  by (subst regex_match_prefix.simps) (simp add: getitem_def split: list.splits)

lemma prefix_quant:
  assumes "a \<noteq> backslash" and "q \<in> set ''?*+''"
  shows "regex_match_prefix (a # q # r) s = do {
     skip \<leftarrow> (if q \<in> set ''?*'' then regex_match_prefix r s else Some False);
     if skip then Some True
     else (case s of [] \<Rightarrow> Some False
           | x # xs \<Rightarrow>
               if regex_match a x then do {
                 once \<leftarrow> regex_match_prefix r xs;
                 if once then Some True
                 else if q \<in> set ''*+'' then regex_match_prefix (a # q # r) xs
                 else Some False }
               else Some False) }"
  using assms
  by (subst regex_match_prefix.simps [of "a # q # r" s],
      cases s; cases "regex_match_prefix r s"; cases "regex_match_prefix r (tl s)")
     (auto simp: getitem_def bind_bool_id)

lemma prefix_single:
  "regex_match_prefix [a] s =
     (case s of [] \<Rightarrow> Some False
      | x # xs \<Rightarrow> if regex_match a x then regex_match_prefix [] xs else Some False)"
  by (subst regex_match_prefix.simps) (simp add: getitem_def split: list.splits)

lemma prefix_plain:
  "a \<noteq> backslash \<Longrightarrow> q \<notin> set ''?*+'' \<Longrightarrow>
   regex_match_prefix (a # q # r) s =
     (case s of [] \<Rightarrow> Some False
      | x # xs \<Rightarrow> if regex_match a x then regex_match_prefix (q # r) xs else Some False)"
  by (subst regex_match_prefix.simps) (simp add: getitem_def split: list.splits)


text \<open>
  The bodies with their calls as parameters are the defining equations, and the same
  steps can be read off them for arbitrary calls.
\<close>

lemma full_unfold:
  "regex_match_full regex string =
     regex_match_full_step regex_match_call regex_match_full regex string"
  unfolding regex_match_full_step_def regex_match_call_def
  by (rule regex_match_full.simps)

lemma prefix_unfold:
  "regex_match_prefix regex string =
     regex_match_prefix_step regex_match_call regex_match_prefix regex string"
  unfolding regex_match_prefix_step_def regex_match_call_def
  by (rule regex_match_prefix.simps)

lemma search_unfold:
  "regex_search regex string =
     regex_search_step regex_match_full regex_match_prefix regex string"
  unfolding regex_search_step_def by (rule regex_search_def)

lemma full_step_Nil: "regex_match_full_step ac self [] s = Some (s = [])"
  by (simp add: regex_match_full_step_def)

lemma full_step_single:
  "regex_match_full_step ac self [a] s =
     (case s of [] \<Rightarrow> Some False
      | x # xs \<Rightarrow> do { ok \<leftarrow> ac a x; if ok then self [] xs else Some False })"
  by (cases s) (simp_all add: regex_match_full_step_def getitem_def cong: if_cong)

lemma full_step_escape:
  "regex_match_full_step ac self (backslash # c # r) s =
     (case s of [] \<Rightarrow> Some False
      | x # xs \<Rightarrow> if c = x then self r xs else Some False)"
  by (cases s) (simp_all add: regex_match_full_step_def getitem_def cong: if_cong)

lemma full_step_plain:
  "a \<noteq> backslash \<Longrightarrow> q \<notin> set ''?*+'' \<Longrightarrow>
   regex_match_full_step ac self (a # q # r) s =
     (case s of [] \<Rightarrow> Some False
      | x # xs \<Rightarrow> do { ok \<leftarrow> ac a x; if ok then self (q # r) xs else Some False })"
  by (cases s) (simp_all add: regex_match_full_step_def getitem_def cong: if_cong)

lemma full_step_quant_Nil:
  assumes "a \<noteq> backslash" and "q \<in> set ''?*+''"
  shows "regex_match_full_step ac self (a # q # r) [] = do {
     skip \<leftarrow> (if q \<in> set ''?*'' then self r [] else Some False);
     if skip then Some True else Some False }"
  using assms
  by (simp add: regex_match_full_step_def getitem_def cong: if_cong)

lemma full_step_quant_Cons:
  assumes "a \<noteq> backslash" and "q \<in> set ''?*+''"
  shows "regex_match_full_step ac self (a # q # r) (x # xs) = do {
     skip \<leftarrow> (if q \<in> set ''?*'' then self r (x # xs) else Some False);
     if skip then Some True
     else do {
       ok \<leftarrow> ac a x;
       if ok then do {
         once \<leftarrow> self r xs;
         if once then Some True
         else if q \<in> set ''*+'' then self (a # q # r) xs
         else Some False }
       else Some False } }"
  using assms
  by (simp add: regex_match_full_step_def getitem_def bind_bool_id cong: if_cong)

lemma prefix_step_Nil: "regex_match_prefix_step ac self [] s = Some True"
  by (simp add: regex_match_prefix_step_def)

lemma prefix_step_single:
  "regex_match_prefix_step ac self [a] s =
     (case s of [] \<Rightarrow> Some False
      | x # xs \<Rightarrow> do { ok \<leftarrow> ac a x; if ok then self [] xs else Some False })"
  by (cases s) (simp_all add: regex_match_prefix_step_def getitem_def cong: if_cong)

lemma prefix_step_escape:
  "regex_match_prefix_step ac self (backslash # c # r) s =
     (case s of [] \<Rightarrow> Some False
      | x # xs \<Rightarrow> if c = x then self r xs else Some False)"
  by (cases s) (simp_all add: regex_match_prefix_step_def getitem_def cong: if_cong)

lemma prefix_step_plain:
  "a \<noteq> backslash \<Longrightarrow> q \<notin> set ''?*+'' \<Longrightarrow>
   regex_match_prefix_step ac self (a # q # r) s =
     (case s of [] \<Rightarrow> Some False
      | x # xs \<Rightarrow> do { ok \<leftarrow> ac a x; if ok then self (q # r) xs else Some False })"
  by (cases s) (simp_all add: regex_match_prefix_step_def getitem_def cong: if_cong)

lemma prefix_step_quant_Nil:
  assumes "a \<noteq> backslash" and "q \<in> set ''?*+''"
  shows "regex_match_prefix_step ac self (a # q # r) [] = do {
     skip \<leftarrow> (if q \<in> set ''?*'' then self r [] else Some False);
     if skip then Some True else Some False }"
  using assms
  by (simp add: regex_match_prefix_step_def getitem_def cong: if_cong)

lemma prefix_step_quant_Cons:
  assumes "a \<noteq> backslash" and "q \<in> set ''?*+''"
  shows "regex_match_prefix_step ac self (a # q # r) (x # xs) = do {
     skip \<leftarrow> (if q \<in> set ''?*'' then self r (x # xs) else Some False);
     if skip then Some True
     else do {
       ok \<leftarrow> ac a x;
       if ok then do {
         once \<leftarrow> self r xs;
         if once then Some True
         else if q \<in> set ''*+'' then self (a # q # r) xs
         else Some False }
       else Some False } }"
  using assms
  by (simp add: regex_match_prefix_step_def getitem_def bind_bool_id cong: if_cong)

section \<open>Every call returns a boolean\<close>

text \<open>
  Induction over the shapes of the pattern that the matchers distinguish: empty, a single
  character, an escape pair, a quantified atom, a plain atom.  The hypotheses are those
  of the recursive calls each shape makes.
\<close>

lemma matcher_induct [case_names Nil Single Escape Quant Plain]:
  assumes Nil: "\<And>s. P [] s"
    and Single: "\<And>a s. P [a] s"
    and Escape: "\<And>c r s. (\<And>x xs. s = x # xs \<Longrightarrow> P r xs) \<Longrightarrow> P (backslash # c # r) s"
    and Quant: "\<And>a q r s. a \<noteq> backslash \<Longrightarrow> q \<in> set ''?*+'' \<Longrightarrow> P r s \<Longrightarrow>
                  (\<And>x xs. s = x # xs \<Longrightarrow> P r xs) \<Longrightarrow>
                  (\<And>x xs. s = x # xs \<Longrightarrow> P (a # q # r) xs) \<Longrightarrow> P (a # q # r) s"
    and Plain: "\<And>a q r s. a \<noteq> backslash \<Longrightarrow> q \<notin> set ''?*+'' \<Longrightarrow>
                  (\<And>x xs. s = x # xs \<Longrightarrow> P (q # r) xs) \<Longrightarrow> P (a # q # r) s"
  shows "P r s"
proof (induction "length r + length s" arbitrary: r s rule: less_induct)
  case less
  show ?case
  proof (cases r)
    case Nil
    then show ?thesis by (simp add: assms(1))
  next
    case r: (Cons a r1)
    show ?thesis
    proof (cases r1)
      case Nil
      with r show ?thesis by (simp add: Single)
    next
      case r1: (Cons q r2)
      consider (esc) "a = backslash"
        | (quant) "a \<noteq> backslash" "q \<in> set ''?*+''"
        | (plain) "a \<noteq> backslash" "q \<notin> set ''?*+''"
        by blast
      then show ?thesis
      proof cases
        case esc
        have "P (backslash # q # r2) s"
          by (rule Escape, rule less) (simp add: r r1)
        with esc r r1 show ?thesis by simp
      next
        case quant
        have "P (a # q # r2) s"
        proof (rule Quant [OF quant])
          show "P r2 s" by (rule less) (simp add: r r1)
          show "P r2 xs" if "s = x # xs" for x xs
            by (rule less) (simp add: r r1 that)
          show "P (a # q # r2) xs" if "s = x # xs" for x xs
            by (rule less) (simp add: r r1 that)
        qed
        with r r1 show ?thesis by simp
      next
        case plain
        have "P (a # q # r2) s"
          by (rule Plain [OF plain], rule less) (simp add: r r1)
        with r r1 show ?thesis by simp
      qed
    qed
  qed
qed

lemma full_total: "\<exists>b. regex_match_full r s = Some b"
proof (induction r s rule: matcher_induct)
  case (Nil s)
  show ?case by (simp add: full_Nil)
next
  case (Single a s)
  show ?case by (cases s) (auto simp: full_single full_Nil)
next
  case (Escape c r s)
  then show ?case by (cases s) (auto simp: full_escape)
next
  case (Quant a q r s)
  show ?case
  proof (cases s)
    case Nil
    with Quant(1-3) show ?thesis
      by (subst full_quant) auto
  next
    case (Cons x xs)
    from Quant(3) obtain b1 where b1: "regex_match_full r s = Some b1" by blast
    from Quant(4) Cons obtain b2 where b2: "regex_match_full r xs = Some b2" by blast
    from Quant(5) Cons obtain b3 where b3: "regex_match_full (a # q # r) xs = Some b3" by blast
    from b1 b2 b3 show ?thesis
      unfolding Cons by (subst full_quant [OF Quant(1,2)]) auto
  qed
next
  case (Plain a q r s)
  then show ?case by (cases s) (auto simp: full_plain)
qed

lemma prefix_total: "\<exists>b. regex_match_prefix r s = Some b"
proof (induction r s rule: matcher_induct)
  case (Nil s)
  show ?case by (auto simp: prefix_Nil)
next
  case (Single a s)
  show ?case by (cases s) (auto simp: prefix_single prefix_Nil)
next
  case (Escape c r s)
  then show ?case by (cases s) (auto simp: prefix_escape)
next
  case (Quant a q r s)
  show ?case
  proof (cases s)
    case Nil
    with Quant(1-3) show ?thesis
      by (subst prefix_quant) auto
  next
    case (Cons x xs)
    from Quant(3) obtain b1 where b1: "regex_match_prefix r s = Some b1" by blast
    from Quant(4) Cons obtain b2 where b2: "regex_match_prefix r xs = Some b2" by blast
    from Quant(5) Cons obtain b3 where b3: "regex_match_prefix (a # q # r) xs = Some b3" by blast
    from b1 b2 b3 show ?thesis
      unfolding Cons by (subst prefix_quant [OF Quant(1,2)]) auto
  qed
next
  case (Plain a q r s)
  then show ?case by (cases s) (auto simp: prefix_plain)
qed

lemma first_match_total:
  assumes "\<And>i. i \<in> set offsets \<Longrightarrow> \<exists>b. attempt i = Some b"
  shows "\<exists>b. first_match attempt offsets = Some b"
  using assms
proof (induction offsets)
  case Nil
  show ?case by auto
next
  case (Cons i offsets)
  from Cons.prems obtain b where b: "attempt i = Some b" by auto
  from Cons obtain b' where "first_match attempt offsets = Some b'" by auto
  with b show ?case by (cases b) auto
qed

lemma search_total: "\<exists>b. regex_search r s = Some b"
proof -
  have "\<exists>b. first_match (\<lambda>i. regex_match_full c (drop i s)) offsets = Some b"
    for c offsets
    by (rule first_match_total) (rule full_total)
  moreover
  have "\<exists>b. first_match (\<lambda>i. regex_match_prefix c (drop i s)) offsets = Some b"
    for c offsets
    by (rule first_match_total) (rule prefix_total)
  ultimately show ?thesis
    unfolding regex_search_def Let_def
    using full_total prefix_total by auto
qed

text \<open>
  The function package extracts the call relation of each matcher from its definition:
  \<open>regex_match_full_rel (regex', string') (regex, string)\<close> says that the call on
  \<open>(regex, string)\<close> makes a recursive call on \<open>(regex', string')\<close>, under the
  conditions that guard that call in the source.  Each such call has a shorter subject,
  or the same subject and a shorter pattern.
\<close>

lemma full_calls_decrease:
  assumes "regex_match_full_rel (regex', string') (regex, string)"
  shows "length string' < length string
         \<or> (length string' = length string \<and> length regex' < length regex)"
  using assms by (cases rule: regex_match_full_rel.cases) (auto split: if_splits)

lemma prefix_calls_decrease:
  assumes "regex_match_prefix_rel (regex', string') (regex, string)"
  shows "length string' < length string
         \<or> (length string' = length string \<and> length regex' < length regex)"
  using assms by (cases rule: regex_match_prefix_rel.cases) (auto split: if_splits)

section \<open>When a quantified atom matches\<close>

lemma full_quant_True:
  assumes "a \<noteq> backslash" and "q \<in> set ''?*+''"
  shows "regex_match_full (a # q # r) s = Some True \<longleftrightarrow>
           (q \<in> set ''?*'' \<and> regex_match_full r s = Some True)
         \<or> (\<exists>x xs. s = x # xs \<and> regex_match a x
               \<and> (regex_match_full r xs = Some True
                    \<or> (q \<in> set ''*+'' \<and> regex_match_full (a # q # r) xs = Some True)))"
proof -
  obtain b1 where b1: "regex_match_full r s = Some b1"
    using full_total by blast
  show ?thesis
  proof (cases s)
    case Nil
    with b1 show ?thesis
      by (subst full_quant [OF assms]) (cases b1; simp)
  next
    case (Cons x xs)
    obtain b2 where b2: "regex_match_full r xs = Some b2"
      using full_total by blast
    from b1 b2 show ?thesis
      unfolding Cons
      by (subst full_quant [OF assms]) (cases b1; cases b2; simp)
  qed
qed

lemma prefix_quant_True:
  assumes "a \<noteq> backslash" and "q \<in> set ''?*+''"
  shows "regex_match_prefix (a # q # r) s = Some True \<longleftrightarrow>
           (q \<in> set ''?*'' \<and> regex_match_prefix r s = Some True)
         \<or> (\<exists>x xs. s = x # xs \<and> regex_match a x
               \<and> (regex_match_prefix r xs = Some True
                    \<or> (q \<in> set ''*+'' \<and> regex_match_prefix (a # q # r) xs = Some True)))"
proof -
  obtain b1 where b1: "regex_match_prefix r s = Some b1"
    using prefix_total by blast
  show ?thesis
  proof (cases s)
    case Nil
    with b1 show ?thesis
      by (subst prefix_quant [OF assms]) (cases b1; simp)
  next
    case (Cons x xs)
    obtain b2 where b2: "regex_match_prefix r xs = Some b2"
      using prefix_total by blast
    from b1 b2 show ?thesis
      unfolding Cons
      by (subst prefix_quant [OF assms]) (cases b1; cases b2; simp)
  qed
qed

section \<open>Slices, anchors and the scanning loop\<close>

lemma slice_inner: "slice (a # inner @ [b]) 1 (- 1) = inner"
  by (simp add: slice_def clamp_index_def Let_def)
lemma slice_core: "slice (core @ [b]) 0 (- 1) = core"
  by (simp add: slice_def clamp_index_def Let_def)
lemma startswith_Cons: "startswith (a # r) c = (a = c)"
  by (simp add: startswith_def)
lemma endswith_snoc: "endswith (r @ [a]) c = (a = c)"
  by (simp add: endswith_def)
lemma endswith_Cons_snoc: "endswith (a # r @ [b]) c = (b = c)"
  by (simp add: endswith_def)
lemma endswith_iff: "endswith r c \<longleftrightarrow> (\<exists>core. r = core @ [c])"
  by (cases r rule: rev_cases) (auto simp: endswith_def)

lemma first_match_exists:
  assumes "\<And>i. i \<in> set offsets \<Longrightarrow> \<exists>b. attempt i = Some b"
  shows "first_match attempt offsets = Some (\<exists>i \<in> set offsets. attempt i = Some True)"
  using assms
proof (induction offsets)
  case Nil
  show ?case by simp
next
  case (Cons i offsets)
  from Cons.prems obtain b where b: "attempt i = Some b" by auto
  have "first_match attempt offsets = Some (\<exists>i \<in> set offsets. attempt i = Some True)"
    by (rule Cons.IH) (simp add: Cons.prems)
  with b show ?case by (cases b) auto
qed

lemma first_match_range:
  assumes "\<And>i. \<exists>b. attempt i = Some b"
  shows "first_match attempt [0 ..< n + 1] = Some (\<exists>i \<le> n. attempt i = Some True)"
proof -
  have "set [0 ..< n + 1] = {i. i \<le> n}"
    by auto
  then have "(\<exists>i \<in> set [0 ..< n + 1]. attempt i = Some True) = (\<exists>i \<le> n. attempt i = Some True)"
    by blast
  with first_match_exists [of "[0 ..< n + 1]" attempt] assms show ?thesis
    by simp
qed

section \<open>The call stack\<close>

text \<open>
  With more frames left than the pattern and the subject have characters, the matchers
  find a frame for every call they make; a call that returns with the frames it has
  returns what it returns with any number of them; the bodies raise nothing by
  themselves; and \<open>a*\<close> against a run of \<open>a\<close> nests one call per character.
\<close>

lemma match_within_Suc: "0 < k \<Longrightarrow> regex_match_within k a x = Some (regex_match a x)"
  by (cases k) (simp_all add: regex_match_call_def)

lemma full_within_enough:
  "length r + length s < frames \<Longrightarrow>
   regex_match_full_within frames r s = regex_match_full r s"
proof (induction r s arbitrary: frames rule: matcher_induct)
  case (Nil s)
  then obtain k where "frames = Suc k" by (cases frames) auto
  then show ?case by (simp add: full_step_Nil full_Nil)
next
  case (Single a s)
  then obtain k where k: "frames = Suc k" by (cases frames) auto
  show ?case
  proof (cases s)
    case Nil
    then show ?thesis by (simp add: k full_step_single full_single)
  next
    case (Cons x xs)
    with Single k obtain k' where k': "k = Suc k'" by (cases k) auto
    show ?thesis
      by (simp add: k k' Cons full_step_single full_single full_step_Nil full_Nil
            regex_match_call_def)
  qed
next
  case (Escape c r s)
  then obtain k where k: "frames = Suc k" by (cases frames) auto
  show ?case
  proof (cases s)
    case Nil
    then show ?thesis by (simp add: k full_step_escape full_escape)
  next
    case (Cons x xs)
    with Escape.prems k have "length r + length xs < k" by simp
    then have "regex_match_full_within k r xs = regex_match_full r xs"
      by (rule Escape.IH [OF Cons])
    then show ?thesis
      by (simp add: k Cons full_step_escape full_escape)
  qed
next
  case (Quant a q r s)
  then obtain k where k: "frames = Suc k" by (cases frames) auto
  from Quant.prems k have "length r + length s < k" by simp
  then have skip: "regex_match_full_within k r s = regex_match_full r s"
    by (rule Quant.IH(1))
  show ?case
  proof (cases s)
    case Nil
    with skip show ?thesis
      by (simp add: k full_step_quant_Nil [OF Quant.hyps] full_quant [OF Quant.hyps]
            bind_bool_id cong: if_cong)
  next
    case (Cons x xs)
    from Quant.prems k Cons have "length r + length xs < k" by simp
    then have once: "regex_match_full_within k r xs = regex_match_full r xs"
      by (rule Quant.IH(2) [OF Cons])
    from Quant.prems k Cons have "length (a # q # r) + length xs < k" by simp
    then have more: "regex_match_full_within k (a # q # r) xs = regex_match_full (a # q # r) xs"
      by (rule Quant.IH(3) [OF Cons])
    from Quant.prems k have atom: "regex_match_within k a x = Some (regex_match a x)"
      by (simp add: match_within_Suc)
    from skip show ?thesis
      unfolding Cons k regex_match_full_within.simps
      by (subst full_step_quant_Cons [OF Quant.hyps], subst full_quant [OF Quant.hyps])
         (simp add: once more atom cong: if_cong)
  qed
next
  case (Plain a q r s)
  then obtain k where k: "frames = Suc k" by (cases frames) auto
  show ?case
  proof (cases s)
    case Nil
    then show ?thesis
      by (simp add: k full_step_plain [OF Plain.hyps] full_plain [OF Plain.hyps])
  next
    case (Cons x xs)
    with Plain.prems k have "length (q # r) + length xs < k" by simp
    then have rec: "regex_match_full_within k (q # r) xs = regex_match_full (q # r) xs"
      by (rule Plain.IH [OF Cons])
    from Plain.prems k have atom: "regex_match_within k a x = Some (regex_match a x)"
      by (simp add: match_within_Suc)
    show ?thesis
      by (simp add: k Cons full_step_plain [OF Plain.hyps] full_plain [OF Plain.hyps]
            rec atom)
  qed
qed

lemma prefix_within_enough:
  "length r + length s < frames \<Longrightarrow>
   regex_match_prefix_within frames r s = regex_match_prefix r s"
proof (induction r s arbitrary: frames rule: matcher_induct)
  case (Nil s)
  then obtain k where "frames = Suc k" by (cases frames) auto
  then show ?case by (simp add: prefix_step_Nil prefix_Nil)
next
  case (Single a s)
  then obtain k where k: "frames = Suc k" by (cases frames) auto
  show ?case
  proof (cases s)
    case Nil
    then show ?thesis by (simp add: k prefix_step_single prefix_single)
  next
    case (Cons x xs)
    with Single k obtain k' where k': "k = Suc k'" by (cases k) auto
    show ?thesis
      by (simp add: k k' Cons prefix_step_single prefix_single prefix_step_Nil prefix_Nil
            regex_match_call_def)
  qed
next
  case (Escape c r s)
  then obtain k where k: "frames = Suc k" by (cases frames) auto
  show ?case
  proof (cases s)
    case Nil
    then show ?thesis by (simp add: k prefix_step_escape prefix_escape)
  next
    case (Cons x xs)
    with Escape.prems k have "length r + length xs < k" by simp
    then have "regex_match_prefix_within k r xs = regex_match_prefix r xs"
      by (rule Escape.IH [OF Cons])
    then show ?thesis
      by (simp add: k Cons prefix_step_escape prefix_escape)
  qed
next
  case (Quant a q r s)
  then obtain k where k: "frames = Suc k" by (cases frames) auto
  from Quant.prems k have "length r + length s < k" by simp
  then have skip: "regex_match_prefix_within k r s = regex_match_prefix r s"
    by (rule Quant.IH(1))
  show ?case
  proof (cases s)
    case Nil
    with skip show ?thesis
      by (simp add: k prefix_step_quant_Nil [OF Quant.hyps] prefix_quant [OF Quant.hyps]
            bind_bool_id cong: if_cong)
  next
    case (Cons x xs)
    from Quant.prems k Cons have "length r + length xs < k" by simp
    then have once: "regex_match_prefix_within k r xs = regex_match_prefix r xs"
      by (rule Quant.IH(2) [OF Cons])
    from Quant.prems k Cons have "length (a # q # r) + length xs < k" by simp
    then have more: "regex_match_prefix_within k (a # q # r) xs = regex_match_prefix (a # q # r) xs"
      by (rule Quant.IH(3) [OF Cons])
    from Quant.prems k have atom: "regex_match_within k a x = Some (regex_match a x)"
      by (simp add: match_within_Suc)
    from skip show ?thesis
      unfolding Cons k regex_match_prefix_within.simps
      by (subst prefix_step_quant_Cons [OF Quant.hyps], subst prefix_quant [OF Quant.hyps])
         (simp add: once more atom cong: if_cong)
  qed
next
  case (Plain a q r s)
  then obtain k where k: "frames = Suc k" by (cases frames) auto
  show ?case
  proof (cases s)
    case Nil
    then show ?thesis
      by (simp add: k prefix_step_plain [OF Plain.hyps] prefix_plain [OF Plain.hyps])
  next
    case (Cons x xs)
    with Plain.prems k have "length (q # r) + length xs < k" by simp
    then have rec: "regex_match_prefix_within k (q # r) xs = regex_match_prefix (q # r) xs"
      by (rule Plain.IH [OF Cons])
    from Plain.prems k have atom: "regex_match_within k a x = Some (regex_match a x)"
      by (simp add: match_within_Suc)
    show ?thesis
      by (simp add: k Cons prefix_step_plain [OF Plain.hyps] prefix_plain [OF Plain.hyps]
            rec atom)
  qed
qed


lemma length_slice: "length (slice s i j) \<le> length s"
  by (simp add: slice_def Let_def)

lemma first_match_cong:
  "(\<And>i. i \<in> set offsets \<Longrightarrow> f i = g i) \<Longrightarrow> first_match f offsets = first_match g offsets"
  by (induction offsets) (simp_all cong: if_cong)

lemma search_within_enough:
  assumes "length regex + length string + 1 < frames"
  shows "regex_search_within frames regex string = regex_search regex string"
proof -
  from assms obtain k where k: "frames = Suc k" and big: "length regex + length string < k"
    by (cases frames) auto
  have full: "regex_match_full_within k r s = regex_match_full r s"
    if "length r \<le> length regex" and "length s \<le> length string" for r s
    using that big by (intro full_within_enough) simp
  have prefix: "regex_match_prefix_within k r s = regex_match_prefix r s"
    if "length r \<le> length regex" and "length s \<le> length string" for r s
    using that big by (intro prefix_within_enough) simp
  have "first_match (\<lambda>i. regex_match_full_within k (slice regex 0 (- 1)) (drop i string))
          offsets =
        first_match (\<lambda>i. regex_match_full (slice regex 0 (- 1)) (drop i string)) offsets"
    for offsets
    by (rule first_match_cong) (simp add: full length_slice)
  moreover
  have "first_match (\<lambda>i. regex_match_prefix_within k regex (drop i string)) offsets =
        first_match (\<lambda>i. regex_match_prefix regex (drop i string)) offsets"
    for offsets
    by (rule first_match_cong) (simp add: prefix)
  ultimately show ?thesis
    by (simp add: k search_unfold regex_search_step_def full prefix length_slice Let_def)
qed

lemma full_star_all:
  "regex_match_full ''a*'' (replicate m (CHR ''a'')) = Some True"
proof (induction m)
  case 0
  show ?case by (subst full_quant) (simp_all add: full_Nil)
next
  case (Suc m)
  then show ?case
    by (subst full_quant) (simp_all add: full_Nil regex_match_def)
qed

lemma full_within_star_deep:
  "0 < m \<Longrightarrow> n \<le> m \<Longrightarrow>
   regex_match_full_within n ''a*'' (replicate m (CHR ''a'')) = None"
proof (induction n arbitrary: m)
  case 0
  show ?case by simp
next
  case (Suc k)
  then obtain m' where m: "m = Suc m'" and km: "k \<le> m'" by (cases m) auto
  show ?case
  proof (cases k)
    case 0
    then show ?thesis
      by (simp add: m, subst full_step_quant_Cons) simp_all
  next
    case (Suc k')
    with km have m': "0 < m'" by simp
    from Suc.IH [OF m' km]
    have deep: "regex_match_full_within k ''a*'' (replicate m' (CHR ''a'')) = None" .
    have nil: "regex_match_full_within k [] s = Some (s = [])" for s
      by (simp add: Suc full_step_Nil)
    have atom: "regex_match_within k (CHR ''a'') (CHR ''a'') = Some True"
      by (simp add: Suc regex_match_call_def regex_match_def)
    from m' show ?thesis
      unfolding m replicate_Suc regex_match_full_within.simps
      by (subst full_step_quant_Cons) (simp_all add: nil atom deep)
  qed
qed








lemma full_step_total:
  assumes ac: "\<And>a x. \<exists>b. ac a x = Some b"
    and self: "\<And>r s. \<exists>b. self r s = Some b"
  shows "\<exists>b. regex_match_full_step ac self regex string = Some b"
proof (induction regex string rule: matcher_induct)
  case (Nil s)
  show ?case by (auto simp: full_step_Nil)
next
  case (Single a s)
  show ?case
  proof (cases s)
    case Nil
    then show ?thesis by (auto simp: full_step_single)
  next
    case (Cons x xs)
    obtain ok b where "ac a x = Some ok" and "self [] xs = Some b"
      using ac self by blast
    then show ?thesis by (cases ok) (auto simp: Cons full_step_single)
  qed
next
  case (Escape c r s)
  show ?case
  proof (cases s)
    case Nil
    then show ?thesis by (auto simp: full_step_escape)
  next
    case (Cons x xs)
    obtain b where "self r xs = Some b"
      using self by blast
    then show ?thesis by (cases "c = x") (auto simp: Cons full_step_escape)
  qed
next
  case (Quant a q r s)
  obtain b1 where b1: "self r s = Some b1"
    using self by blast
  show ?case
  proof (cases s)
    case Nil
    from b1 show ?thesis
      unfolding Nil
      by (subst full_step_quant_Nil [OF Quant.hyps]) (cases b1; auto)
  next
    case (Cons x xs)
    obtain ok b2 b3 where "ac a x = Some ok" and "self r xs = Some b2"
      and "self (a # q # r) xs = Some b3"
      using ac self by blast
    with b1 show ?thesis
      unfolding Cons
      by (subst full_step_quant_Cons [OF Quant.hyps]) (cases b1; cases ok; cases b2; auto)
  qed
next
  case (Plain a q r s)
  show ?case
  proof (cases s)
    case Nil
    then show ?thesis by (auto simp: full_step_plain [OF Plain.hyps])
  next
    case (Cons x xs)
    obtain ok b where "ac a x = Some ok" and "self (q # r) xs = Some b"
      using ac self by blast
    then show ?thesis by (cases ok) (auto simp: Cons full_step_plain [OF Plain.hyps])
  qed
qed

lemma prefix_step_total:
  assumes ac: "\<And>a x. \<exists>b. ac a x = Some b"
    and self: "\<And>r s. \<exists>b. self r s = Some b"
  shows "\<exists>b. regex_match_prefix_step ac self regex string = Some b"
proof (induction regex string rule: matcher_induct)
  case (Nil s)
  show ?case by (auto simp: prefix_step_Nil)
next
  case (Single a s)
  show ?case
  proof (cases s)
    case Nil
    then show ?thesis by (auto simp: prefix_step_single)
  next
    case (Cons x xs)
    obtain ok b where "ac a x = Some ok" and "self [] xs = Some b"
      using ac self by blast
    then show ?thesis by (cases ok) (auto simp: Cons prefix_step_single)
  qed
next
  case (Escape c r s)
  show ?case
  proof (cases s)
    case Nil
    then show ?thesis by (auto simp: prefix_step_escape)
  next
    case (Cons x xs)
    obtain b where "self r xs = Some b"
      using self by blast
    then show ?thesis by (cases "c = x") (auto simp: Cons prefix_step_escape)
  qed
next
  case (Quant a q r s)
  obtain b1 where b1: "self r s = Some b1"
    using self by blast
  show ?case
  proof (cases s)
    case Nil
    from b1 show ?thesis
      unfolding Nil
      by (subst prefix_step_quant_Nil [OF Quant.hyps]) (cases b1; auto)
  next
    case (Cons x xs)
    obtain ok b2 b3 where "ac a x = Some ok" and "self r xs = Some b2"
      and "self (a # q # r) xs = Some b3"
      using ac self by blast
    with b1 show ?thesis
      unfolding Cons
      by (subst prefix_step_quant_Cons [OF Quant.hyps]) (cases b1; cases ok; cases b2; auto)
  qed
next
  case (Plain a q r s)
  show ?case
  proof (cases s)
    case Nil
    then show ?thesis by (auto simp: prefix_step_plain [OF Plain.hyps])
  next
    case (Cons x xs)
    obtain ok b where "ac a x = Some ok" and "self (q # r) xs = Some b"
      using ac self by blast
    then show ?thesis by (cases ok) (auto simp: Cons prefix_step_plain [OF Plain.hyps])
  qed
qed


lemma search_within_both_anchors:
  "regex_search_within (Suc k) (CHR ''^'' # inner @ [CHR ''$'']) s =
     regex_match_full_within k inner s"
  by (simp add: regex_search_step_def startswith_Cons endswith_Cons_snoc slice_inner)

section \<open>Patterns that end in a backslash\<close>





section \<open>The properties of the specification\<close>

lemma full_step_quantified:
  assumes "atom \<noteq> backslash" and "quantifier \<in> set ''?*+''"
  shows "regex_match_full_step regex_match_call self (atom # quantifier # rest) subject =
           quantified_step self atom quantifier rest subject"
proof -
  have q: "quantifier = CHR ''?'' \<or> quantifier = CHR ''*'' \<or> quantifier = CHR ''+''"
    using assms(2) by auto
  show ?thesis
  proof (cases subject)
    case Nil
    from q show ?thesis
      unfolding Nil
      by (subst full_step_quant_Nil [OF assms], elim disjE)
         (simp_all add: quantified_step_def consume_def or_else_def cong: if_cong)
  next
    case (Cons x xs)
    from q show ?thesis
      unfolding Cons
      by (subst full_step_quant_Cons [OF assms], elim disjE)
         (simp_all add: quantified_step_def consume_def or_else_def bind_bool_id
               regex_match_call_def cong: if_cong)
  qed
qed

lemma prefix_step_quantified:
  assumes "atom \<noteq> backslash" and "quantifier \<in> set ''?*+''"
  shows "regex_match_prefix_step regex_match_call self (atom # quantifier # rest) subject =
           quantified_step self atom quantifier rest subject"
proof -
  have q: "quantifier = CHR ''?'' \<or> quantifier = CHR ''*'' \<or> quantifier = CHR ''+''"
    using assms(2) by auto
  show ?thesis
  proof (cases subject)
    case Nil
    from q show ?thesis
      unfolding Nil
      by (subst prefix_step_quant_Nil [OF assms], elim disjE)
         (simp_all add: quantified_step_def consume_def or_else_def cong: if_cong)
  next
    case (Cons x xs)
    from q show ?thesis
      unfolding Cons
      by (subst prefix_step_quant_Cons [OF assms], elim disjE)
         (simp_all add: quantified_step_def consume_def or_else_def bind_bool_id
               regex_match_call_def cong: if_cong)
  qed
qed

text \<open>
  C1.  The body of each core matcher, with the calls it makes as parameters, is its
  defining equation, and at a pattern that starts with an atom other than the escape
  character followed by \<open>?\<close>, \<open>*\<close> or \<open>+\<close> that body is the quantified-atom
  step of the specification, whatever the recursive calls return or raise: for \<open>?\<close>
  and \<open>*\<close> skip is attempted first and consume only when skip returned false, inside
  consume the rest of the pattern is attempted before the repetition, the repetition
  only for \<open>*\<close> and \<open>+\<close>, and for \<open>+\<close> skip is not attempted at all.  Since a
  raising call ends the step, the order of the attempts is fixed by the equation.
  \<open>search("a*ab", "aaab")\<close> is true, where skip fails first.
\<close>

theorem quantified_atom_step_order:
  assumes "atom \<noteq> backslash" and "quantifier \<in> set ''?*+''"
  shows "regex_match_full regex string =
           regex_match_full_step regex_match_call regex_match_full regex string
       \<and> regex_match_prefix regex string =
           regex_match_prefix_step regex_match_call regex_match_prefix regex string
       \<and> regex_match_full_step regex_match_call self (atom # quantifier # rest) subject =
           quantified_step self atom quantifier rest subject
       \<and> regex_match_prefix_step regex_match_call self (atom # quantifier # rest) subject =
           quantified_step self atom quantifier rest subject
       \<and> regex_match_full (atom # quantifier # rest) subject =
           quantified_step regex_match_full atom quantifier rest subject
       \<and> regex_match_prefix (atom # quantifier # rest) subject =
           quantified_step regex_match_prefix atom quantifier rest subject
       \<and> regex_search ''a*ab'' ''aaab'' = Some True
       \<and> regex_match_prefix ''a*ab'' ''aaab'' = Some True
       \<and> regex_match_prefix ''ab'' ''aaab'' = Some False
       \<and> regex_match_full ''a*ab'' ''aaab'' = Some True
       \<and> regex_match_full ''ab'' ''aaab'' = Some False
       \<and> regex_match_full ''a+'' ''aa'' = Some True
       \<and> regex_match_full ''a?'' ''aa'' = Some False"
proof -
  have "regex_match_full (atom # quantifier # rest) subject =
           quantified_step regex_match_full atom quantifier rest subject"
    by (subst full_unfold) (rule full_step_quantified [OF assms])
  moreover
  have "regex_match_prefix (atom # quantifier # rest) subject =
           quantified_step regex_match_prefix atom quantifier rest subject"
    by (subst prefix_unfold) (rule prefix_step_quantified [OF assms])
  moreover have "regex_search ''a*ab'' ''aaab'' = Some True" by code_simp
  moreover have "regex_match_prefix ''a*ab'' ''aaab'' = Some True" by code_simp
  moreover have "regex_match_prefix ''ab'' ''aaab'' = Some False" by code_simp
  moreover have "regex_match_full ''a*ab'' ''aaab'' = Some True" by code_simp
  moreover have "regex_match_full ''ab'' ''aaab'' = Some False" by code_simp
  moreover have "regex_match_full ''a+'' ''aa'' = Some True" by code_simp
  moreover have "regex_match_full ''a?'' ''aa'' = Some False" by code_simp
  ultimately show ?thesis
    using full_unfold [of regex string] prefix_unfold [of regex string]
      full_step_quantified [OF assms, of self rest subject]
      prefix_step_quantified [OF assms, of self rest subject]
    by blast
qed

text \<open>
  The order made visible by recursive calls that raise: with \<open>*\<close> a successful skip
  returns before consume is attempted and a successful consume-once before the
  repetition; with \<open>?\<close> the repetition is not attempted; with \<open>+\<close> skip is not
  attempted, and with \<open>*\<close> it is.
\<close>

theorem quantified_atom_step_order_witness:
  "CHR ''a'' \<noteq> backslash \<and> CHR ''*'' \<in> set ''?*+'' \<and> CHR ''?'' \<in> set ''?*+''
   \<and> CHR ''+'' \<in> set ''?*+''
   \<and> regex_match_full_step regex_match_call
        (\<lambda>r s. if s = ''ab'' then Some True else None) ''a*b'' ''ab'' = Some True
   \<and> regex_match_full_step regex_match_call
        (\<lambda>r s. if s = ''ab'' then Some False else if r = ''b'' then Some True else None)
        ''a*b'' ''ab'' = Some True
   \<and> regex_match_full_step regex_match_call
        (\<lambda>r s. if s = ''ab'' then Some False else if r = ''b'' then Some False else None)
        ''a?b'' ''ab'' = Some False
   \<and> regex_match_prefix_step regex_match_call
        (\<lambda>r s. if s = ''ab'' then None else if r = ''b'' then Some True else None)
        ''a+b'' ''ab'' = Some True
   \<and> regex_match_prefix_step regex_match_call
        (\<lambda>r s. if s = ''ab'' then None else Some True) ''a*b'' ''ab'' = None"
proof -
  have a: "CHR ''a'' \<noteq> backslash" by simp
  have star: "CHR ''*'' \<in> set ''?*+''" by simp
  have opt: "CHR ''?'' \<in> set ''?*+''" by simp
  have plus: "CHR ''+'' \<in> set ''?*+''" by simp
  note s = quantified_atom_step_order [OF a star, of "[]" "[]" _ "''b''" "''ab''"]
  note o = quantified_atom_step_order [OF a opt, of "[]" "[]" _ "''b''" "''ab''"]
  note p = quantified_atom_step_order [OF a plus, of "[]" "[]" _ "''b''" "''ab''"]
  have "regex_match_full_step regex_match_call
        (\<lambda>r s. if s = ''ab'' then Some True else None) ''a*b'' ''ab'' = Some True"
    using s [of "\<lambda>r s. if s = ''ab'' then Some True else None"]
    by (simp add: quantified_step_def consume_def or_else_def regex_match_def)
  moreover
  have "regex_match_full_step regex_match_call
        (\<lambda>r s. if s = ''ab'' then Some False else if r = ''b'' then Some True else None)
        ''a*b'' ''ab'' = Some True"
    using s [of "\<lambda>r s. if s = ''ab'' then Some False else if r = ''b'' then Some True else None"]
    by (simp add: quantified_step_def consume_def or_else_def regex_match_def)
  moreover
  have "regex_match_full_step regex_match_call
        (\<lambda>r s. if s = ''ab'' then Some False else if r = ''b'' then Some False else None)
        ''a?b'' ''ab'' = Some False"
    using o [of "\<lambda>r s. if s = ''ab'' then Some False else if r = ''b'' then Some False else None"]
    by (simp add: quantified_step_def consume_def or_else_def regex_match_def)
  moreover
  have "regex_match_prefix_step regex_match_call
        (\<lambda>r s. if s = ''ab'' then None else if r = ''b'' then Some True else None)
        ''a+b'' ''ab'' = Some True"
    using p [of "\<lambda>r s. if s = ''ab'' then None else if r = ''b'' then Some True else None"]
    by (simp add: quantified_step_def consume_def or_else_def regex_match_def)
  moreover
  have "regex_match_prefix_step regex_match_call
        (\<lambda>r s. if s = ''ab'' then None else Some True) ''a*b'' ''ab'' = None"
    using s [of "\<lambda>r s. if s = ''ab'' then None else Some True"]
    by (simp add: quantified_step_def consume_def or_else_def regex_match_def)
  ultimately show ?thesis using a star opt plus by blast
qed

text \<open>
  C6.  The empty pattern matches every subject, the empty one included: the test for it
  is the first statement of \<open>regex_search\<close>, before any anchor is looked at.
\<close>

theorem empty_pattern_always_matches: "regex_search [] s = Some True"
  by (simp add: regex_search_def)

text \<open>
  C4.  A pattern that starts with \<open>^\<close> and ends with \<open>$\<close> is \<open>^\<close>, an inner
  pattern and \<open>$\<close>, and \<open>regex_search\<close> returns what the full matcher returns for the
  inner pattern against the whole subject.  \<open>search("^abc$", "abc")\<close> is true,
  \<open>search("^abc$", "abcd")\<close> and \<open>search("^abc$", "xabc")\<close> are false.
\<close>

theorem both_anchors_full_match:
  assumes "startswith regex (CHR ''^'')" and "endswith regex (CHR ''$'')"
  shows "(\<exists>inner. regex = CHR ''^'' # inner @ [CHR ''$'']
            \<and> regex_search regex subject = regex_match_full inner subject)
       \<and> regex_search ''^abc$'' ''abc'' = Some True
       \<and> regex_search ''^abc$'' ''abcd'' = Some False
       \<and> regex_search ''^abc$'' ''xabc'' = Some False"
proof -
  from assms(2) obtain core where core: "regex = core @ [CHR ''$'']"
    by (auto simp: endswith_iff)
  with assms(1) obtain inner where inner: "core = CHR ''^'' # inner"
    by (cases core) (auto simp: startswith_def)
  have regex: "regex = CHR ''^'' # inner @ [CHR ''$'']"
    by (simp add: core inner)
  have "regex_search regex subject = regex_match_full inner subject"
    unfolding regex
    by (simp add: regex_search_def startswith_Cons endswith_Cons_snoc slice_inner)
  moreover have "regex_search ''^abc$'' ''abc'' = Some True" by code_simp
  moreover have "regex_search ''^abc$'' ''abcd'' = Some False" by code_simp
  moreover have "regex_search ''^abc$'' ''xabc'' = Some False" by code_simp
  ultimately show ?thesis using regex by blast
qed

text \<open>At \<open>^abc$\<close> against \<open>abcd\<close>.\<close>

theorem both_anchors_full_match_witness:
  "startswith ''^abc$'' (CHR ''^'') \<and> endswith ''^abc$'' (CHR ''$'')
   \<and> (\<exists>inner. ''^abc$'' = CHR ''^'' # inner @ [CHR ''$'']
          \<and> regex_search ''^abc$'' ''abcd'' = regex_match_full inner ''abcd'')"
proof -
  have s: "startswith ''^abc$'' (CHR ''^'')" by (simp add: startswith_def)
  have e: "endswith ''^abc$'' (CHR ''$'')" by (simp add: endswith_def)
  from both_anchors_full_match [OF s e, of "''abcd''"] s e show ?thesis by blast
qed

text \<open>
  C5.  For a pattern that does not start with \<open>^\<close>, \<open>regex_search\<close> is the loop over
  the offsets \<open>0, \<dots>, len(subject)\<close> in this order, which stops at the first success:
  with the full matcher and the pattern without its last character when the pattern
  ends in \<open>$\<close>, with the prefix matcher and the whole pattern otherwise.  It returns
  true when some offset up to and including \<open>len(subject)\<close> matches and false when
  none does.  \<open>search("c$", "abc")\<close> is true and \<open>search("c$", "abcd")\<close> is false.
\<close>

theorem scan_every_offset:
  assumes "regex \<noteq> []" and "\<not> startswith regex (CHR ''^'')"
  shows "(endswith regex (CHR ''$'') \<longrightarrow>
            (\<exists>core. regex = core @ [CHR ''$'']
               \<and> regex_search regex subject =
                   first_match (\<lambda>i. regex_match_full core (drop i subject))
                     [0 ..< length subject + 1]
               \<and> regex_search regex subject =
                   Some (\<exists>i \<le> length subject.
                           regex_match_full core (drop i subject) = Some True)))
       \<and> (\<not> endswith regex (CHR ''$'') \<longrightarrow>
            regex_search regex subject =
              first_match (\<lambda>i. regex_match_prefix regex (drop i subject))
                [0 ..< length subject + 1]
          \<and> regex_search regex subject =
              Some (\<exists>i \<le> length subject.
                      regex_match_prefix regex (drop i subject) = Some True))
       \<and> regex_search ''c$'' ''abc'' = Some True
       \<and> regex_search ''c$'' ''abcd'' = Some False"
proof (intro conjI impI)
  assume e: "endswith regex (CHR ''$'')"
  then obtain core where core: "regex = core @ [CHR ''$'']"
    by (auto simp: endswith_iff)
  have loop: "regex_search regex subject =
                first_match (\<lambda>i. regex_match_full core (drop i subject))
                  [0 ..< length subject + 1]"
    using assms e by (simp add: regex_search_def core slice_core)
  moreover have "first_match (\<lambda>i. regex_match_full core (drop i subject))
                  [0 ..< length subject + 1] =
                 Some (\<exists>i \<le> length subject.
                         regex_match_full core (drop i subject) = Some True)"
    by (rule first_match_range) (rule full_total)
  ultimately show "\<exists>core. regex = core @ [CHR ''$'']
               \<and> regex_search regex subject =
                   first_match (\<lambda>i. regex_match_full core (drop i subject))
                     [0 ..< length subject + 1]
               \<and> regex_search regex subject =
                   Some (\<exists>i \<le> length subject.
                           regex_match_full core (drop i subject) = Some True)"
    using core by auto
next
  assume e: "\<not> endswith regex (CHR ''$'')"
  with assms show loop: "regex_search regex subject =
              first_match (\<lambda>i. regex_match_prefix regex (drop i subject))
                [0 ..< length subject + 1]"
    by (simp add: regex_search_def)
  have "first_match (\<lambda>i. regex_match_prefix regex (drop i subject))
                  [0 ..< length subject + 1] =
                 Some (\<exists>i \<le> length subject.
                         regex_match_prefix regex (drop i subject) = Some True)"
    by (rule first_match_range) (rule prefix_total)
  with loop show "regex_search regex subject =
              Some (\<exists>i \<le> length subject.
                      regex_match_prefix regex (drop i subject) = Some True)"
    by simp
next
  show "regex_search ''c$'' ''abc'' = Some True" by code_simp
  show "regex_search ''c$'' ''abcd'' = Some False" by code_simp
qed

text \<open>
  The two branches at \<open>c$\<close> against \<open>abc\<close> and at \<open>b\<close> against \<open>aaabaaa\<close>.
\<close>

theorem scan_every_offset_witness:
  "''c$'' \<noteq> [] \<and> \<not> startswith ''c$'' (CHR ''^'') \<and> endswith ''c$'' (CHR ''$'')
   \<and> (\<exists>core. ''c$'' = core @ [CHR ''$'']
          \<and> regex_search ''c$'' ''abc'' =
              Some (\<exists>i \<le> length ''abc''. regex_match_full core (drop i ''abc'') = Some True))
   \<and> ''b'' \<noteq> [] \<and> \<not> startswith ''b'' (CHR ''^'') \<and> \<not> endswith ''b'' (CHR ''$'')
   \<and> regex_search ''b'' ''aaabaaa'' =
         Some (\<exists>i \<le> length ''aaabaaa''.
                 regex_match_prefix ''b'' (drop i ''aaabaaa'') = Some True)"
proof -
  have c: "''c$'' \<noteq> []" "\<not> startswith ''c$'' (CHR ''^'')" "endswith ''c$'' (CHR ''$'')"
    by (simp_all add: startswith_def endswith_def)
  have b: "''b'' \<noteq> []" "\<not> startswith ''b'' (CHR ''^'')" "\<not> endswith ''b'' (CHR ''$'')"
    by (simp_all add: startswith_def endswith_def)
  from scan_every_offset [OF c(1,2), of "''abc''"] c(3)
  have "\<exists>core. ''c$'' = core @ [CHR ''$'']
          \<and> regex_search ''c$'' ''abc'' =
              Some (\<exists>i \<le> length ''abc''. regex_match_full core (drop i ''abc'') = Some True)"
    by blast
  moreover
  from scan_every_offset [OF b(1,2), of "''aaabaaa''"] b(3)
  have "regex_search ''b'' ''aaabaaa'' =
         Some (\<exists>i \<le> length ''aaabaaa''.
                 regex_match_prefix ''b'' (drop i ''aaabaaa'') = Some True)"
    by blast
  ultimately show ?thesis using b c by blast
qed

text \<open>
  C2.  An escape pair is matched by the core matchers as the one literal character after
  the backslash (\<open>full_escape\<close>, \<open>prefix_escape\<close>), and the search for
  \<open>a\<close>, escaped \<open>.\<close>, \<open>b\<close> is true in \<open>a.b\<close> and false in \<open>axb\<close>.  But
  \<open>regex_search\<close> looks for the anchor \<open>$\<close> with \<^verbatim>\<open>endswith\<close> on the raw
  pattern, so an escaped \<open>$\<close> that ends the pattern is taken for the anchor: the
  pattern \<open>a\<close>, backslash, \<open>$\<close> does not match the subject \<open>a$\<close>, it matches the
  subject \<open>a\<close>, backslash, while both core matchers on the same pattern do match
  \<open>a$\<close>.
\<close>

theorem escaped_dollar_at_end_is_anchor:
  "regex_search [CHR ''a'', backslash, CHR ''$''] ''a$'' = Some False
   \<and> regex_search [CHR ''a'', backslash, CHR ''$''] [CHR ''a'', backslash] = Some True
   \<and> regex_match_full [CHR ''a'', backslash, CHR ''$''] ''a$'' = Some True
   \<and> regex_match_prefix [CHR ''a'', backslash, CHR ''$''] ''a$'' = Some True
   \<and> regex_search [CHR ''a'', backslash, CHR ''.'', CHR ''b''] ''a.b'' = Some True
   \<and> regex_search [CHR ''a'', backslash, CHR ''.'', CHR ''b''] ''axb'' = Some False"
  by (intro conjI; code_simp)







text \<open>
  C7.  Against the empty subject an atom with \<open>*\<close> or \<open>?\<close> matches and an atom
  with \<open>+\<close> does not, whatever follows it: \<open>+\<close> never skips.  The atom is any
  character that is neither the escape character nor the anchor \<open>^\<close>.
  \<open>search("a*", "")\<close> and \<open>search("a?", "")\<close> are true, \<open>search("a+", "")\<close> is false.
\<close>

theorem quantifiers_on_empty_subject:
  assumes "atom \<noteq> backslash" and "atom \<noteq> CHR ''^''"
  shows "regex_search [atom, CHR ''*''] [] = Some True
       \<and> regex_search [atom, CHR ''+''] [] = Some False
       \<and> regex_search [atom, CHR ''?''] [] = Some True
       \<and> regex_match_full (atom # CHR ''+'' # rest) [] = Some False
       \<and> regex_match_prefix (atom # CHR ''+'' # rest) [] = Some False
       \<and> regex_search ''a*'' [] = Some True
       \<and> regex_search ''a+'' [] = Some False
       \<and> regex_search ''a?'' [] = Some True"
proof -
  have search: "regex_search [atom, q] [] = regex_match_prefix [atom, q] []"
    if "q \<in> set ''?*+''" for q
    using that assms(2)
    by (cases "regex_match_prefix [atom, q] []")
       (auto simp: regex_search_def startswith_def endswith_def)
  have "regex_match_prefix [atom, CHR ''*''] [] = Some True"
    by (subst prefix_quant [OF assms(1)]) (simp_all add: prefix_Nil)
  moreover have "regex_match_prefix [atom, CHR ''?''] [] = Some True"
    by (subst prefix_quant [OF assms(1)]) (simp_all add: prefix_Nil)
  moreover have "regex_match_prefix (atom # CHR ''+'' # rest) [] = Some False" for rest
    by (subst prefix_quant [OF assms(1)]) simp_all
  moreover have "regex_match_full (atom # CHR ''+'' # rest) [] = Some False"
    by (subst full_quant [OF assms(1)]) simp_all
  moreover have "regex_search ''a*'' [] = Some True" by code_simp
  moreover have "regex_search ''a+'' [] = Some False" by code_simp
  moreover have "regex_search ''a?'' [] = Some True" by code_simp
  ultimately show ?thesis by (simp add: search)
qed

text \<open>The same with the wildcard as the atom.\<close>

theorem quantifiers_on_empty_subject_witness:
  "CHR ''.'' \<noteq> backslash \<and> CHR ''.'' \<noteq> CHR ''^''
   \<and> regex_search ''.*'' [] = Some True
   \<and> regex_search ''.+'' [] = Some False
   \<and> regex_search ''.?'' [] = Some True
   \<and> regex_match_full ''.+b'' [] = Some False"
  using quantifiers_on_empty_subject [of "CHR ''.''" "''b''"] by simp

text \<open>
  C8, as stated, fails: the matchers recurse once per subject character, and the
  interpreter raises \<^verbatim>\<open>RecursionError\<close> when the frames run out.  Both calls below
  return true when the stack is deep enough; with 1000 frames left for the full matcher
  on \<open>a*\<close>, or 1001 for the search for \<open>^a*$\<close>, and a subject of 1000 \<open>a\<close>, they
  raise.
\<close>

theorem recursion_limit_counterexample:
  "regex_match_full ''a*'' (replicate 1000 (CHR ''a'')) = Some True
   \<and> regex_match_full_within 1000 ''a*'' (replicate 1000 (CHR ''a'')) = None
   \<and> regex_search ''^a*$'' (replicate 1000 (CHR ''a'')) = Some True
   \<and> regex_search_within 1001 ''^a*$'' (replicate 1000 (CHR ''a'')) = None"
proof -
  have a: "''^a*$'' = CHR ''^'' # ''a*'' @ [CHR ''$'']" by simp
  have full: "regex_match_full ''a*'' (replicate 1000 (CHR ''a'')) = Some True"
    by (rule full_star_all)
  have deep: "regex_match_full_within 1000 ''a*'' (replicate 1000 (CHR ''a'')) = None"
    by (rule full_within_star_deep) simp_all
  have "regex_search ''^a*$'' (replicate 1000 (CHR ''a'')) =
          regex_match_full ''a*'' (replicate 1000 (CHR ''a''))"
    by (simp add: regex_search_def startswith_def endswith_def slice_def clamp_index_def)
  with full have search: "regex_search ''^a*$'' (replicate 1000 (CHR ''a'')) = Some True"
    by (rule trans [rotated])
  have "regex_search_within (Suc 1000) ''^a*$'' (replicate 1000 (CHR ''a'')) =
          regex_match_full_within 1000 ''a*'' (replicate 1000 (CHR ''a''))"
    unfolding a by (rule search_within_both_anchors)
  with deep
  have "regex_search_within (Suc 1000) ''^a*$'' (replicate 1000 (CHR ''a'')) = None"
    by (rule trans [rotated])
  moreover have "Suc 1000 = 1001" by simp
  ultimately
  have "regex_search_within 1001 ''^a*$'' (replicate 1000 (CHR ''a'')) = None"
    by (rule subst [rotated])
  with full deep search show ?thesis by blast
qed

text \<open>
  C8, amended.  For every pattern and subject the recursion ends and no index is read out
  of range: the results are booleans; the body of each matcher raises only when a call
  it makes raises; and every recursive call strictly decreases the pair (length of the
  subject, length of the pattern) in the lexicographic order.  A matcher called with
  more frames left than the pattern and the subject have characters, and the search
  called with one frame more, returns that boolean.
\<close>

theorem returns_boolean_within_recursion_limit:
  "(\<exists>b. regex_match_full regex string = Some b)
   \<and> (\<exists>b. regex_match_prefix regex string = Some b)
   \<and> (\<exists>b. regex_search regex string = Some b)
   \<and> ((\<forall>a x. \<exists>b. atom_call a x = Some b) \<and> (\<forall>r s. \<exists>b. self r s = Some b) \<longrightarrow>
        (\<exists>b. regex_match_full_step atom_call self regex string = Some b)
      \<and> (\<exists>b. regex_match_prefix_step atom_call self regex string = Some b))
   \<and> (regex_match_full_rel (regex', string') (regex, string) \<longrightarrow>
        length string' < length string
        \<or> (length string' = length string \<and> length regex' < length regex))
   \<and> (regex_match_prefix_rel (regex', string') (regex, string) \<longrightarrow>
        length string' < length string
        \<or> (length string' = length string \<and> length regex' < length regex))
   \<and> (length regex + length string < frames \<longrightarrow>
        regex_match_full_within frames regex string = regex_match_full regex string
      \<and> regex_match_prefix_within frames regex string = regex_match_prefix regex string)
   \<and> (length regex + length string + 1 < frames \<longrightarrow>
        regex_search_within frames regex string = regex_search regex string)"
proof -
  have "(\<exists>b. regex_match_full_step atom_call self regex string = Some b)
      \<and> (\<exists>b. regex_match_prefix_step atom_call self regex string = Some b)"
    if "\<forall>a x. \<exists>b. atom_call a x = Some b" and "\<forall>r s. \<exists>b. self r s = Some b"
    using that full_step_total [of atom_call self regex string]
      prefix_step_total [of atom_call self regex string]
    by blast
  then show ?thesis
    using full_total [of regex string] prefix_total [of regex string]
      search_total [of regex string]
      full_calls_decrease [of regex' string' regex string]
      prefix_calls_decrease [of regex' string' regex string]
      full_within_enough [of regex string frames]
      prefix_within_enough [of regex string frames]
      search_within_enough [of regex string frames]
    by blast
qed

text \<open>
  The skip call of \<open>a*\<close> against \<open>a\<close>, where the subject stays and the pattern
  shrinks, and the same pattern and subject with five frames left.
\<close>

theorem returns_boolean_within_recursion_limit_witness:
  "regex_match_full_rel ([], ''a'') (''a*'', ''a'')
   \<and> regex_match_prefix_rel ([], ''a'') (''a*'', ''a'')
   \<and> (length ''a'' < length ''a''
        \<or> (length ''a'' = length ''a'' \<and> length ([] :: string) < length ''a*''))
   \<and> length ''a*'' + length ''a'' + 1 < (5 :: nat)
   \<and> regex_match_full_within 5 ''a*'' ''a'' = regex_match_full ''a*'' ''a''
   \<and> regex_search_within 5 ''a*'' ''a'' = regex_search ''a*'' ''a''
   \<and> regex_search_within 5 ''a*'' ''a'' = Some True
   \<and> (\<exists>b. regex_match_full_step regex_match_call (\<lambda>r s. Some False) ''a*'' ''a'' = Some b)"
proof -
  have f: "regex_match_full_rel ([], ''a'') (''a*'', ''a'')"
    using regex_match_full_rel.intros(2)
            [of "''a*''" "CHR ''a''" True "CHR ''a''" "CHR ''*''" "''a''"]
    by (simp add: getitem_def)
  have p: "regex_match_prefix_rel ([], ''a'') (''a*'', ''a'')"
    using regex_match_prefix_rel.intros(2)
            [of "''a*''" "CHR ''a''" True "CHR ''a''" "CHR ''*''" "''a''"]
    by (simp add: getitem_def)
  have l: "length ''a*'' + length ''a'' + 1 < (5 :: nat)" by simp
  then have l': "length ''a*'' + length ''a'' < (5 :: nat)" by simp
  have t: "regex_search_within 5 ''a*'' ''a'' = Some True" by code_simp
  have c: "\<forall>a x. \<exists>b. regex_match_call a x = Some b"
    by (simp add: regex_match_call_def)
  have s: "\<forall>r s :: string. \<exists>b. (Some False :: bool option) = Some b" by blast
  from returns_boolean_within_recursion_limit
         [of "''a*''" "''a''" regex_match_call "\<lambda>r s. Some False" "[]" "''a''" 5]
       f p l l' t c s
  show ?thesis by blast
qed




text \<open>
  C10.  Whenever the full matcher returns true, so does the prefix matcher on the same
  pattern and subject.
\<close>

theorem full_match_implies_prefix_match:
  "regex_match_full p s = Some True \<Longrightarrow> regex_match_prefix p s = Some True"
proof (induction p s rule: matcher_induct)
  case (Nil s)
  show ?case by (simp add: prefix_Nil)
next
  case (Single a s)
  then show ?case
    by (cases s) (simp_all add: full_single prefix_single full_Nil prefix_Nil split: if_splits)
next
  case (Escape c r s)
  then show ?case
    by (cases s) (simp_all add: full_escape prefix_escape split: if_splits)
next
  case (Quant a q r s)
  note full = full_quant_True [OF Quant.hyps, of r s]
  note prefix = prefix_quant_True [OF Quant.hyps, of r s]
  from Quant.prems Quant.IH full prefix show ?case
    by blast
next
  case (Plain a q r s)
  show ?case
  proof (cases s)
    case Nil
    with Plain.prems show ?thesis
      by (simp add: full_plain [OF Plain.hyps])
  next
    case (Cons x xs)
    with Plain.prems
    have "regex_match a x" and "regex_match_full (q # r) xs = Some True"
      by (simp_all add: full_plain [OF Plain.hyps] split: if_splits)
    with Plain.IH [OF Cons] show ?thesis
      by (simp add: Cons prefix_plain [OF Plain.hyps])
  qed
qed

text \<open>At \<open>a*b\<close> against \<open>aab\<close>.\<close>

theorem full_match_implies_prefix_match_witness:
  "regex_match_full ''a*b'' ''aab'' = Some True
   \<and> regex_match_prefix ''a*b'' ''aab'' = Some True"
proof -
  have "regex_match_full ''a*b'' ''aab'' = Some True" by code_simp
  with full_match_implies_prefix_match [of "''a*b''" "''aab''"] show ?thesis by blast
qed

end
